theory Spec2Isabelle
  imports Main "HOL-Library.Word"
begin

section \<open>api/video/encoded_image.cc\<close>

text \<open>
  \<^verbatim>\<open>size_t\<close> is taken as a 64-bit unsigned integer and \<^verbatim>\<open>uint8_t\<close> as a byte.
  C++ member names end in an underscore, which an Isabelle name cannot; the members
  keep their names with a prime appended (\<^verbatim>\<open>size_\<close> is \<open>size_'\<close>).
\<close>

type_synonym size_t = "64 word"
type_synonym uint8_t = "8 word"
type_synonym int64_t = "64 word"

text \<open>
  The enumeration \<^verbatim>\<open>VideoCodecType\<close> is declared in a header that is not part of the
  sources. The four enumerators below are the ones the sources name
  (\<^verbatim>\<open>test/scenario/video_stream.cc\<close>, \<^verbatim>\<open>CodecTypeToPayloadType\<close>); every other value
  the type may hold is \<open>kVideoCodecOther n\<close>, which is what reaches the
  \<^verbatim>\<open>default:\<close> branch of a switch.
\<close>

datatype VideoCodecType =
    kVideoCodecGeneric
  | kVideoCodecVP8
  | kVideoCodecVP9
  | kVideoCodecH264
  | kVideoCodecOther nat

definition kBufferPaddingBytesH264 :: size_t where
  "kBufferPaddingBytesH264 = 8"

fun GetBufferPaddingBytes :: "VideoCodecType \<Rightarrow> size_t" where
  "GetBufferPaddingBytes kVideoCodecH264 = kBufferPaddingBytesH264"
| "GetBufferPaddingBytes _ = 0"

record Timing =
  encode_start_ms :: int64_t
  encode_finish_ms :: int64_t

text \<open>
  The members of \<^verbatim>\<open>EncodedImage\<close> that \<^verbatim>\<open>encoded_image.cc\<close> touches. The class
  declaration is in a header outside the sources; its remaining members are the
  extension part of the record, so a function on \<open>'a EncodedImage_scheme\<close> speaks
  about them as well. \<open>buffer_'\<close> is a pointer into memory the image does not own:
  \<open>None\<close> is \<^verbatim>\<open>nullptr\<close>, \<open>Some p\<close> the address \<open>p\<close>.
\<close>

record EncodedImage =
  size_' :: size_t
  buffer_' :: "nat option"
  capacity_' :: size_t
  encoded_data_' :: "uint8_t list"
  timing_' :: Timing

text \<open>
  \<^verbatim>\<open>memcpy(dst, src, n)\<close> into a vector: the first \<open>n\<close> bytes of \<open>dst\<close> become the
  bytes of memory at \<open>src, src + 1, ..\<close>; memory is a function from addresses to bytes.
\<close>

definition memcpy :: "uint8_t list \<Rightarrow> (nat \<Rightarrow> uint8_t) \<Rightarrow> nat \<Rightarrow> nat \<Rightarrow> uint8_t list" where
  "memcpy dst mem src n = map (\<lambda>i. mem (src + i)) [0..<n] @ drop n dst"

text \<open>
  \<^verbatim>\<open>
  void EncodedImage::Retain() {
    if (buffer_) {
      encoded_data_ = std::vector<uint8_t>(size_);
      memcpy(encoded_data_.data(), buffer_, size_);
      buffer_ = nullptr;
    }
  }
  \<close>
\<close>

definition Retain :: "(nat \<Rightarrow> uint8_t) \<Rightarrow> 'a EncodedImage_scheme \<Rightarrow> 'a EncodedImage_scheme" where
  "Retain mem this =
     (case buffer_' this of
        None \<Rightarrow> this
      | Some p \<Rightarrow>
          this\<lparr>encoded_data_' := memcpy (replicate (unat (size_' this)) 0) mem p (unat (size_' this)),
               buffer_' := None\<rparr>)"

definition SetEncodeTime :: "int64_t \<Rightarrow> int64_t \<Rightarrow> 'a EncodedImage_scheme \<Rightarrow> 'a EncodedImage_scheme" where
  "SetEncodeTime start_ms finish_ms this =
     this\<lparr>timing_' := (timing_' this)\<lparr>encode_start_ms := start_ms, encode_finish_ms := finish_ms\<rparr>\<rparr>"

section \<open>api/media_constraints_interface.cc\<close>

text \<open>
  A constraint is a key with a value (\<^verbatim>\<open>iter->key\<close>, \<^verbatim>\<open>iter->value\<close>; \<open>value\<close> is a
  keyword, so the member is \<open>value'\<close>); \<^verbatim>\<open>Constraints\<close> is a vector of them. The
  interface's two getters return the mandatory and the optional vector.
\<close>

record Constraint =
  key :: string
  value' :: string

type_synonym Constraints = "Constraint list"

record MediaConstraintsInterface =
  GetMandatory :: Constraints
  GetOptional :: Constraints

text \<open>
  \<^verbatim>\<open>Constraints::FindFirst(key, value)\<close>: the out-parameter \<^verbatim>\<open>*value\<close> is passed in and
  returned with the result; it is written only when the key is found.
\<close>

fun FindFirst :: "Constraints \<Rightarrow> string \<Rightarrow> string \<Rightarrow> bool \<times> string" where
  "FindFirst [] k v = (False, v)"
| "FindFirst (c # cs) k v = (if key c = k then (True, value' c) else FindFirst cs k v)"

text \<open>
  The \<^verbatim>\<open>std::string\<close> specialisation of \<^verbatim>\<open>FindConstraint\<close>. \<open>constraints\<close> and
  \<open>mandatory_constraints\<close> are pointers that may be null (\<open>None\<close>); the result is the
  returned bool, the final \<^verbatim>\<open>*value\<close> and the final \<^verbatim>\<open>*mandatory_constraints\<close>.
\<close>

definition FindConstraint ::
  "MediaConstraintsInterface option \<Rightarrow> string \<Rightarrow> string \<Rightarrow> size_t option
     \<Rightarrow> bool \<times> string \<times> size_t option" where
  "FindConstraint constraints k v mandatory_constraints =
     (case constraints of
        None \<Rightarrow> (False, v, mandatory_constraints)
      | Some c \<Rightarrow>
          (case FindFirst (GetMandatory c) k v of
             (True, v1) \<Rightarrow> (True, v1, map_option (\<lambda>n. n + 1) mandatory_constraints)
           | (False, v1) \<Rightarrow>
               (case FindFirst (GetOptional c) k v1 of
                  (True, v2) \<Rightarrow> (True, v2, mandatory_constraints)
                | (False, v2) \<Rightarrow> (False, v2, mandatory_constraints))))"

section \<open>rtc_base/task_queue: the queue the unit tests exercise\<close>

text \<open>
  \<^verbatim>\<open>rtc_base/task_queue_unittest.cc\<close> is in the sources; the task queue it tests
  (\<^verbatim>\<open>rtc_base/task_queue.h\<close> and the platform implementations) is not. This section
  models the queue from the specification, one worker and one world at a time: a
  world holds the queues that exist and the trace of what has happened so far.
\<close>

text \<open>
  Modelled from the spec: the Task and the Closure Adapter (\<^verbatim>\<open>QueuedTask\<close>,
  \<^verbatim>\<open>NewClosure\<close>; their header is missing). A callable is the list of things it does
  when called: \<open>Invoke n\<close> is an effect the callable has on the rest of the program
  (the tests count them or set an event), told apart by its number; \<open>PostTo q t\<close> is
  a call of \<^verbatim>\<open>PostTask\<close> on queue \<open>q\<close> from inside the callable. \<open>ClosureTask f\<close> is
  the single-callable form, \<open>ClosureTaskWithCleanup f c\<close> the paired form with
  cleanup callable \<open>c\<close>, and \<open>CustomTask f b\<close> a task written by hand whose \<^verbatim>\<open>Run\<close>
  does \<open>f\<close> and returns \<open>b\<close>.
\<close>

datatype action = Invoke nat | PostTo nat task
and task =
    ClosureTask "action list"
  | ClosureTaskWithCleanup "action list" "action list"
  | CustomTask "action list" bool

text \<open>
  Modelled from the spec: what an observer of a world can see, in the order it
  happens. \<open>Started q t\<close>: the worker of queue \<open>q\<close> enters \<^verbatim>\<open>Run\<close> of \<open>t\<close>;
  \<open>Returned q t b\<close>: that \<^verbatim>\<open>Run\<close> returns \<open>b\<close>; \<open>Called n\<close>: effect \<open>n\<close> of a
  callable takes place; \<open>Destroyed t\<close>: the task object \<open>t\<close> is destroyed.
\<close>

datatype event = Started nat task | Called nat | Returned nat task bool | Destroyed task

text \<open>
  Modelled from the spec: the Task Queue's pending immediate-task channel, with the
  capacity of its transport (the spec leaves the number open; it is a parameter).
\<close>

record task_queue =
  pending :: "task list"
  capacity :: nat

text \<open>
  Modelled from the spec: the queues that exist, by number (\<open>None\<close>: never created,
  or destroyed), and the trace.
\<close>

record world =
  queues :: "nat \<Rightarrow> task_queue option"
  trace :: "event list"

text \<open>
  Modelled from the spec: the two ways a world changes. \<open>log e\<close> appends an event
  to the trace; \<open>set_queue q Q\<close> replaces queue \<open>q\<close>.
\<close>

definition log :: "event \<Rightarrow> world \<Rightarrow> world" where
  "log e w = w\<lparr>trace := trace w @ [e]\<rparr>"

definition set_queue :: "nat \<Rightarrow> task_queue option \<Rightarrow> world \<Rightarrow> world" where
  "set_queue q Q w = w\<lparr>queues := (queues w)(q := Q)\<rparr>"

text \<open>
  Modelled from the spec: calling a callable, \<^verbatim>\<open>PostTask\<close> and the destruction of a
  task (the queue's and the adapter's code is missing).

  \<open>PostTask q t\<close> appends \<open>t\<close> to the pending channel of \<open>q\<close>; it returns nothing.
  When the channel already holds \<open>capacity\<close> tasks, the task is dropped and
  destroyed (spec, 4.1 and 7); so is a task posted to a queue that no longer exists.

  Destroying a paired closure calls its cleanup callable. The spec's section 4.2
  says this happens only for a task that is discarded without having run. The unit
  test \<^verbatim>\<open>TaskQueueTest.PostALot\<close>, which is in the sources, expects
  \<^verbatim>\<open>tasks_cleaned_up\<close> to equal the number of tasks posted and to be at least
  \<^verbatim>\<open>tasks_executed\<close>, whatever number of tasks ran (the spec's section 8 repeats
  it); a cleanup that is skipped for the tasks that ran cannot give that count once
  one task has run. \<open>destroy\<close> follows the test: the cleanup callable is called
  whenever the task object is destroyed, whether it has run or not.
\<close>

fun exec_actions :: "action list \<Rightarrow> world \<Rightarrow> world"
  and PostTask :: "nat \<Rightarrow> task \<Rightarrow> world \<Rightarrow> world"
  and destroy :: "task \<Rightarrow> world \<Rightarrow> world" where
  "exec_actions [] w = w"
| "exec_actions (Invoke n # as) w = exec_actions as (log (Called n) w)"
| "exec_actions (PostTo q t # as) w = exec_actions as (PostTask q t w)"
| "PostTask q t w =
     (case queues w q of
        None \<Rightarrow> destroy t w
      | Some Q \<Rightarrow>
          if length (pending Q) < capacity Q
          then set_queue q (Some (Q\<lparr>pending := pending Q @ [t]\<rparr>)) w
          else destroy t w)"
| "destroy (ClosureTask f) w = log (Destroyed (ClosureTask f)) w"
| "destroy (ClosureTaskWithCleanup f c) w =
     log (Destroyed (ClosureTaskWithCleanup f c)) (exec_actions c w)"
| "destroy (CustomTask f b) w = log (Destroyed (CustomTask f b)) w"

text \<open>
  Modelled from the spec: \<^verbatim>\<open>Run\<close> of the three kinds of task (spec, 3 and 4.2). A
  closure task calls its run callable and returns true; the paired form inherits
  that \<^verbatim>\<open>Run\<close> and does not touch its cleanup callable in it.
\<close>

fun Run :: "task \<Rightarrow> world \<Rightarrow> world \<times> bool" where
  "Run (ClosureTask f) w = (exec_actions f w, True)"
| "Run (ClosureTaskWithCleanup f c) w = (exec_actions f w, True)"
| "Run (CustomTask f b) w = (exec_actions f w, b)"

text \<open>
  Modelled from the spec: one turn of the worker loop of queue \<open>q\<close> (spec, 2 and
  4.1). It takes the oldest pending task, runs it, and destroys it when \<^verbatim>\<open>Run\<close>
  returned true; after false it does nothing more with the task. An empty or
  missing queue makes the turn a no-op.
\<close>

definition worker_step :: "nat \<Rightarrow> world \<Rightarrow> world" where
  "worker_step q w =
     (case queues w q of
        None \<Rightarrow> w
      | Some Q \<Rightarrow>
          (case pending Q of
             [] \<Rightarrow> w
           | t # rest \<Rightarrow>
               (let w1 = log (Started q t) (set_queue q (Some (Q\<lparr>pending := rest\<rparr>)) w);
                    (w2, done) = Run t w1;
                    w3 = log (Returned q t done) w2
                in if done then destroy t w3 else w3)))"

text \<open>
  Modelled from the spec: the constructor and the destructor of a queue (spec, 3
  and 4.1). The destructor discards every task that has not started, destroying each
  without running it, oldest first; the queue is gone before the first of them is
  destroyed.
\<close>

definition TaskQueue_create :: "nat \<Rightarrow> nat \<Rightarrow> world \<Rightarrow> world" where
  "TaskQueue_create q cap w = set_queue q (Some \<lparr>pending = [], capacity = cap\<rparr>) w"

definition TaskQueue_destruct :: "nat \<Rightarrow> world \<Rightarrow> world" where
  "TaskQueue_destruct q w =
     (case queues w q of
        None \<Rightarrow> w
      | Some Q \<Rightarrow> fold destroy (pending Q) (set_queue q None w))"

text \<open>Modelled from the spec: the world before any queue is created.\<close>

definition no_queues :: world where
  "no_queues = \<lparr>queues = (\<lambda>q. None), trace = []\<rparr>"

subsection \<open>The test PostALot\<close>

text \<open>
  \<^verbatim>\<open>
  queue.PostTask([&event]() { event.Wait(Event::kForever); });
  for (int i = 0; i < kTaskCount; ++i)
    queue.PostTask(NewClosure([&tasks_executed]() { ++tasks_executed; },
                              [&tasks_cleaned_up]() { ++tasks_cleaned_up; }));
  event.Set();  // Unblock the first task.
  }   // the queue goes out of scope
  EXPECT_GE(tasks_cleaned_up, tasks_executed);
  EXPECT_EQ(kTaskCount, tasks_cleaned_up);
  \<close>
  The \<open>i\<close>-th task of the loop is \<open>counting_task i\<close>. To tell the tasks apart, the
  increment of \<^verbatim>\<open>tasks_executed\<close> by task \<open>i\<close> is effect \<open>2 * i\<close> and its increment of
  \<^verbatim>\<open>tasks_cleaned_up\<close> is effect \<open>2 * i + 1\<close>; the two counters are the numbers of
  even and of odd effects in the trace.
\<close>

definition counting_task :: "nat \<Rightarrow> task" where
  "counting_task i = ClosureTaskWithCleanup [Invoke (2 * i)] [Invoke (2 * i + 1)]"

fun is_executed :: "event \<Rightarrow> bool" where
  "is_executed (Called n) = even n"
| "is_executed _ = False"

fun is_cleaned_up :: "event \<Rightarrow> bool" where
  "is_cleaned_up (Called n) = odd n"
| "is_cleaned_up _ = False"

definition tasks_executed :: "world \<Rightarrow> nat" where
  "tasks_executed w = length (filter is_executed (trace w))"

definition tasks_cleaned_up :: "world \<Rightarrow> nat" where
  "tasks_cleaned_up w = length (filter is_cleaned_up (trace w))"

text \<open>The calls of the two callables of task \<open>i\<close>, in the order they happened.\<close>

definition calls_of :: "nat \<Rightarrow> world \<Rightarrow> event list" where
  "calls_of i w = filter (\<lambda>e. e = Called (2 * i) \<or> e = Called (2 * i + 1)) (trace w)"

text \<open>
  \<open>post_a_lot q i ks\<close> posts task \<open>i\<close>, lets the worker take \<open>hd ks\<close> turns, posts
  task \<open>i + 1\<close>, and so on: \<open>ks\<close> gives, for each task, the number of worker turns
  between its post and the next. \<open>PostALot q cap ks\<close> is the whole test on a fresh
  queue of capacity \<open>cap\<close>, ending with the queue's destructor. In the test the first
  task keeps the worker blocked while the loop posts, and the worker is free from
  \<^verbatim>\<open>event.Set()\<close> until the destructor stops it: that run is
  \<open>ks = replicate (n - 1) 0 @ [k]\<close>, with \<open>k\<close> the turns the worker gets at the end.
  Other lists are the runs in which the worker is not held back.
\<close>

fun post_a_lot :: "nat \<Rightarrow> nat \<Rightarrow> nat list \<Rightarrow> world \<Rightarrow> world" where
  "post_a_lot q i [] w = w"
| "post_a_lot q i (k # ks) w =
     post_a_lot q (Suc i) ks ((worker_step q ^^ k) (PostTask q (counting_task i) w))"

definition PostALot :: "nat \<Rightarrow> nat \<Rightarrow> nat list \<Rightarrow> world" where
  "PostALot q cap ks =
     TaskQueue_destruct q (post_a_lot q 0 ks (TaskQueue_create q cap no_queues))"

text \<open>
  The two outcomes a posted task can have: its run callable was called and then,
  when the queue was done with it, its cleanup callable; or the task was dropped or
  discarded and only its cleanup callable was called.
\<close>

definition outcome_ok :: "nat \<Rightarrow> world \<Rightarrow> bool" where
  "outcome_ok j w \<longleftrightarrow>
     calls_of j w = [Called (2 * j), Called (2 * j + 1)] \<or> calls_of j w = [Called (2 * j + 1)]"

text \<open>
  The invariant of the test's loop after \<open>i\<close> posts: the pending tasks are distinct
  tasks of the loop that have had no call yet, every other posted task has had one
  of the two outcomes, and the counters add up.
\<close>

definition PostALot_inv :: "nat \<Rightarrow> nat \<Rightarrow> nat \<Rightarrow> world \<Rightarrow> bool" where
  "PostALot_inv q cap i w \<longleftrightarrow>
     (\<exists>js. queues w q = Some \<lparr>pending = map counting_task js, capacity = cap\<rparr> \<and>
           distinct js \<and> (\<forall>j \<in> set js. j < i) \<and>
           tasks_cleaned_up w + length js = i \<and>
           tasks_executed w \<le> tasks_cleaned_up w \<and>
           (\<forall>j. (j \<in> set js \<or> i \<le> j \<longrightarrow> calls_of j w = []) \<and>
                (j \<notin> set js \<and> j < i \<longrightarrow> outcome_ok j w)))"

subsection \<open>Delayed tasks\<close>

text \<open>
  Modelled from the spec: the Delayed Entry (spec, 3): a task bound to its fire
  time, in milliseconds of the queue's monotonic clock, and to a sequence number.
  The timer code of the queue is not in the sources.
\<close>

record delayed_entry =
  fire_time :: nat
  sequence :: nat
  entry_task :: task

text \<open>
  Modelled from the spec: the Delay Scheduler (spec, 4.3), its pending entries in
  ascending order of fire time, entries with the same fire time in the order of
  their sequence numbers, and the next sequence number to hand out.
\<close>

record delay_scheduler =
  entries :: "delayed_entry list"
  next_sequence :: nat

text \<open>
  Modelled from the spec: the order of the entries (spec, 3): by fire time, and by
  sequence number where the fire times are equal; \<open>insert_entry\<close> puts an entry at
  its place in a list that is in this order.
\<close>

definition entry_before :: "delayed_entry \<Rightarrow> delayed_entry \<Rightarrow> bool" where
  "entry_before a b \<longleftrightarrow>
     fire_time a < fire_time b \<or> (fire_time a = fire_time b \<and> sequence a < sequence b)"

fun insert_entry :: "delayed_entry \<Rightarrow> delayed_entry list \<Rightarrow> delayed_entry list" where
  "insert_entry e [] = [e]"
| "insert_entry e (x # xs) = (if entry_before e x then e # x # xs else x # insert_entry e xs)"

text \<open>
  Modelled from the spec: \<^verbatim>\<open>Schedule(task, delay_ms)\<close> (spec, 4.3): the fire time is
  the clock reading \<open>now\<close> plus the delay, the entry takes the next sequence number
  and is inserted at its place. The clock belongs to the environment (spec, 6), so
  its reading is an argument.
\<close>

definition Schedule :: "nat \<Rightarrow> task \<Rightarrow> nat \<Rightarrow> delay_scheduler \<Rightarrow> delay_scheduler" where
  "Schedule now t delay_ms sched =
     \<lparr>entries = insert_entry
                  \<lparr>fire_time = now + delay_ms, sequence = next_sequence sched, entry_task = t\<rparr>
                  (entries sched),
      next_sequence = Suc (next_sequence sched)\<rparr>"

text \<open>
  Modelled from the spec: \<^verbatim>\<open>NextDue(now)\<close> (spec, 4.3) removes and returns every entry
  whose fire time is at most \<open>now\<close>, in the order the scheduler keeps them.
\<close>

definition NextDue :: "nat \<Rightarrow> delay_scheduler \<Rightarrow> delayed_entry list \<times> delay_scheduler" where
  "NextDue now sched =
     (filter (\<lambda>e. fire_time e \<le> now) (entries sched),
      sched\<lparr>entries := filter (\<lambda>e. \<not> fire_time e \<le> now) (entries sched)\<rparr>)"

text \<open>
  Modelled from the spec: the delayed path of one Task Queue (spec, 4.1): its
  scheduler, and the entries its worker has started so far, each with the clock
  reading at which the worker started it. \<open>PostDelayedTask now t delay_ms\<close> is the
  call made when the clock reads \<open>now\<close>. \<open>worker_wake now\<close> is the worker waking
  when the clock reads \<open>now\<close>: it takes what \<open>NextDue now\<close> returns and starts these
  entries, in that order.
\<close>

record delayed_queue =
  scheduler :: delay_scheduler
  runs :: "(nat \<times> delayed_entry) list"

text \<open>Modelled from the spec: a queue on which no delayed task has been posted yet.\<close>

definition new_delayed_queue :: delayed_queue where
  "new_delayed_queue = \<lparr>scheduler = \<lparr>entries = [], next_sequence = 0\<rparr>, runs = []\<rparr>"

definition PostDelayedTask :: "nat \<Rightarrow> task \<Rightarrow> nat \<Rightarrow> delayed_queue \<Rightarrow> delayed_queue" where
  "PostDelayedTask now t delay_ms Q = Q\<lparr>scheduler := Schedule now t delay_ms (scheduler Q)\<rparr>"

definition worker_wake :: "nat \<Rightarrow> delayed_queue \<Rightarrow> delayed_queue" where
  "worker_wake now Q =
     (case NextDue now (scheduler Q) of
        (due, sched) \<Rightarrow> \<lparr>scheduler = sched, runs = runs Q @ map (\<lambda>e. (now, e)) due\<rparr>)"

text \<open>
  A history of the queue: the calls of \<^verbatim>\<open>PostDelayedTask\<close> and the wakings of the
  worker, in the order they happen, each with the clock reading at that moment.
  \<open>posts ops\<close> lists the posts of a history, oldest first, as clock reading, task and
  delay; the \<open>k\<close>-th post (from 0) gets sequence number \<open>k\<close>. \<open>runs_of k Q\<close> are the
  starts of the entry with sequence number \<open>k\<close>.
\<close>

datatype delayed_op = PostDelayed nat task nat | Wake nat

fun apply_op :: "delayed_op \<Rightarrow> delayed_queue \<Rightarrow> delayed_queue" where
  "apply_op (PostDelayed now t delay_ms) Q = PostDelayedTask now t delay_ms Q"
| "apply_op (Wake now) Q = worker_wake now Q"

definition run_delayed :: "delayed_op list \<Rightarrow> delayed_queue" where
  "run_delayed ops = fold apply_op ops new_delayed_queue"

fun posts :: "delayed_op list \<Rightarrow> (nat \<times> task \<times> nat) list" where
  "posts [] = []"
| "posts (PostDelayed now t delay_ms # ops) = (now, t, delay_ms) # posts ops"
| "posts (Wake now # ops) = posts ops"

definition runs_of :: "nat \<Rightarrow> delayed_queue \<Rightarrow> (nat \<times> delayed_entry) list" where
  "runs_of k Q = filter (\<lambda>r. sequence (snd r) = k) (runs Q)"

text \<open>
  An entry is the one a post of the history made: its sequence number is the
  position of a post, its task is the task posted, and its fire time is the clock
  reading of the post plus the delay.
\<close>

definition posted :: "(nat \<times> task \<times> nat) list \<Rightarrow> delayed_entry \<Rightarrow> bool" where
  "posted ps e \<longleftrightarrow>
     sequence e < length ps \<and>
     (case ps ! sequence e of (now0, t, d) \<Rightarrow> entry_task e = t \<and> fire_time e = now0 + d)"

text \<open>
  The invariant of a history with posts \<open>ps\<close>: every pending entry and every started
  entry was made by a post, no entry was started before its fire time, and every
  post has exactly one entry, pending or started.
\<close>

definition delayed_inv :: "(nat \<times> task \<times> nat) list \<Rightarrow> delayed_queue \<Rightarrow> bool" where
  "delayed_inv ps Q \<longleftrightarrow>
     next_sequence (scheduler Q) = length ps \<and>
     (\<forall>e \<in> set (entries (scheduler Q)). posted ps e) \<and>
     (\<forall>r \<in> set (runs Q). posted ps (snd r) \<and> fire_time (snd r) \<le> fst r) \<and>
     (\<forall>k. length (filter (\<lambda>e. sequence e = k) (entries (scheduler Q))) + length (runs_of k Q)
            = (if k < length ps then 1 else 0))"

section \<open>Properties of EncodedImage\<close>

text \<open>
  C8. For every codec type \<open>c\<close>, \<open>GetBufferPaddingBytes c\<close> is 8
  (\<open>kBufferPaddingBytesH264\<close>) when \<open>c\<close> is \<open>kVideoCodecH264\<close> and 0 for every other
  codec type.
\<close>

theorem GetBufferPaddingBytes_H264_only:
  "kBufferPaddingBytesH264 = 8 \<and>
   GetBufferPaddingBytes kVideoCodecH264 = 8 \<and>
   (\<forall>c. c \<noteq> kVideoCodecH264 \<longrightarrow> GetBufferPaddingBytes c = 0)"
proof (intro conjI allI impI)
  show "kBufferPaddingBytesH264 = 8"
    by (simp add: kBufferPaddingBytesH264_def)
  show "GetBufferPaddingBytes kVideoCodecH264 = 8"
    by (simp add: kBufferPaddingBytesH264_def)
  fix c :: VideoCodecType
  assume "c \<noteq> kVideoCodecH264"
  then show "GetBufferPaddingBytes c = 0"
    by (cases c) simp_all
qed

theorem GetBufferPaddingBytes_H264_only_witness:
  "kVideoCodecVP8 \<noteq> kVideoCodecH264 \<and> GetBufferPaddingBytes kVideoCodecVP8 = 0 \<and>
   kVideoCodecOther 7 \<noteq> kVideoCodecH264 \<and> GetBufferPaddingBytes (kVideoCodecOther 7) = 0"
  using GetBufferPaddingBytes_H264_only by simp

lemma memcpy_whole:
  "length dst = n \<Longrightarrow> memcpy dst mem p n = map (\<lambda>i. mem (p + i)) [0..<n]"
  by (simp add: memcpy_def)

lemma Retain_null: "buffer_' this = None \<Longrightarrow> Retain mem this = this"
  by (simp add: Retain_def)

lemma Retain_non_null:
  "buffer_' this = Some p \<Longrightarrow>
   Retain mem this =
     this\<lparr>encoded_data_' := map (\<lambda>i. mem (p + i)) [0..<unat (size_' this)], buffer_' := None\<rparr>"
  by (simp add: Retain_def memcpy_whole)

lemma Retain_buffer_null: "buffer_' (Retain mem this) = None"
  by (simp add: Retain_def split: option.splits)

text \<open>
  C9. \<open>Retain\<close> is idempotent. With a null \<open>buffer_'\<close> it changes nothing. With
  \<open>buffer_'\<close> pointing at \<open>p\<close> it makes \<open>encoded_data_'\<close> exactly the first \<open>size_'\<close>
  bytes found at \<open>p\<close>, sets \<open>buffer_'\<close> to null and leaves every other member
  (\<open>size_'\<close>, \<open>capacity_'\<close>, \<open>timing_'\<close> and the members of the extension) as it was.
  A second call, whatever the memory holds by then, has no further effect.
\<close>

theorem Retain_idempotent:
  "(buffer_' this = None \<longrightarrow> Retain mem this = this) \<and>
   (\<forall>p. buffer_' this = Some p \<longrightarrow>
      length (encoded_data_' (Retain mem this)) = unat (size_' this) \<and>
      (\<forall>i < unat (size_' this). encoded_data_' (Retain mem this) ! i = mem (p + i)) \<and>
      buffer_' (Retain mem this) = None \<and>
      size_' (Retain mem this) = size_' this \<and>
      capacity_' (Retain mem this) = capacity_' this \<and>
      timing_' (Retain mem this) = timing_' this \<and>
      EncodedImage.more (Retain mem this) = EncodedImage.more this) \<and>
   Retain mem2 (Retain mem this) = Retain mem this"
proof (intro conjI allI impI)
  assume "buffer_' this = None"
  then show "Retain mem this = this"
    by (rule Retain_null)
next
  show "Retain mem2 (Retain mem this) = Retain mem this"
    by (rule Retain_null) (rule Retain_buffer_null)
next
  fix p
  assume p: "buffer_' this = Some p"
  note eq = Retain_non_null [OF p, of mem]
  show "length (encoded_data_' (Retain mem this)) = unat (size_' this)"
    by (simp add: eq)
  show "buffer_' (Retain mem this) = None"
    by (simp add: eq)
  show "size_' (Retain mem this) = size_' this"
    by (simp add: eq)
  show "capacity_' (Retain mem this) = capacity_' this"
    by (simp add: eq)
  show "timing_' (Retain mem this) = timing_' this"
    by (simp add: eq)
  show "EncodedImage.more (Retain mem this) = EncodedImage.more this"
    by (simp add: eq)
  fix i
  assume "i < unat (size_' this)"
  then show "encoded_data_' (Retain mem this) ! i = mem (p + i)"
    by (simp add: eq)
qed

theorem Retain_idempotent_witness:
  "buffer_' \<lparr>size_' = 2, buffer_' = Some 10, capacity_' = 4, encoded_data_' = [7],
              timing_' = \<lparr>encode_start_ms = 0, encode_finish_ms = 0\<rparr>\<rparr> = Some 10 \<and>
   (1::nat) < unat (2 :: size_t) \<and>
   length (encoded_data_' (Retain (\<lambda>a. of_nat a)
     \<lparr>size_' = 2, buffer_' = Some 10, capacity_' = 4, encoded_data_' = [7],
      timing_' = \<lparr>encode_start_ms = 0, encode_finish_ms = 0\<rparr>\<rparr>)) = 2 \<and>
   encoded_data_' (Retain (\<lambda>a. of_nat a)
     \<lparr>size_' = 2, buffer_' = Some 10, capacity_' = 4, encoded_data_' = [7],
      timing_' = \<lparr>encode_start_ms = 0, encode_finish_ms = 0\<rparr>\<rparr>) ! 1 = 11 \<and>
   buffer_' \<lparr>size_' = 2, buffer_' = None, capacity_' = 4, encoded_data_' = [7],
              timing_' = \<lparr>encode_start_ms = 0, encode_finish_ms = 0\<rparr>\<rparr> = None \<and>
   Retain (\<lambda>a. 0)
     \<lparr>size_' = 2, buffer_' = None, capacity_' = 4, encoded_data_' = [7],
      timing_' = \<lparr>encode_start_ms = 0, encode_finish_ms = 0\<rparr>\<rparr>
   = \<lparr>size_' = 2, buffer_' = None, capacity_' = 4, encoded_data_' = [7],
      timing_' = \<lparr>encode_start_ms = 0, encode_finish_ms = 0\<rparr>\<rparr>"
proof -
  let ?t = "\<lparr>encode_start_ms = 0, encode_finish_ms = 0\<rparr>"
  let ?a = "\<lparr>size_' = 2, buffer_' = Some 10, capacity_' = 4, encoded_data_' = [7], timing_' = ?t\<rparr>"
  let ?b = "\<lparr>size_' = 2, buffer_' = None, capacity_' = 4, encoded_data_' = [7], timing_' = ?t\<rparr>"
  let ?mem = "\<lambda>a::nat. (of_nat a :: uint8_t)"
  have ha: "buffer_' ?a = Some 10" and hb: "buffer_' ?b = None" and lt: "(1::nat) < unat (size_' ?a)"
    by simp_all
  from Retain_idempotent [of ?a ?mem ?mem] ha
  have len: "length (encoded_data_' (Retain ?mem ?a)) = unat (size_' ?a)"
    and nth: "\<forall>i < unat (size_' ?a). encoded_data_' (Retain ?mem ?a) ! i = ?mem (10 + i)"
    by blast+
  from Retain_idempotent [of ?b "\<lambda>a. 0" "\<lambda>a. 0"] hb
  have same: "Retain (\<lambda>a. 0) ?b = ?b"
    by blast
  from nth lt have "encoded_data_' (Retain ?mem ?a) ! 1 = ?mem (10 + 1)"
    by blast
  with len same show ?thesis
    by simp
qed

section \<open>Properties of FindConstraint\<close>

lemma FindFirst_find:
  "FindFirst cs k v =
     (case find (\<lambda>c. key c = k) cs of None \<Rightarrow> (False, v) | Some e \<Rightarrow> (True, value' e))"
  by (induction cs) simp_all

text \<open>
  C10. \<open>FindConstraint\<close> returns false, writing nothing, when the constraints pointer
  is null. When the key occurs in the mandatory list it returns true with the value of
  the first mandatory entry that has the key, and the counter, if its pointer is not
  null, is incremented. Only when the key does not occur in the mandatory list is the
  optional list consulted: the value of its first entry with the key is returned and
  the counter is left alone. When the key occurs in neither list the result is false
  and nothing is written.
\<close>

theorem FindConstraint_mandatory_then_optional:
  "FindConstraint None k v mc = (False, v, mc) \<and>
   (\<forall>e. find (\<lambda>x. key x = k) (GetMandatory c) = Some e \<longrightarrow>
      FindConstraint (Some c) k v None = (True, value' e, None) \<and>
      (\<forall>n. FindConstraint (Some c) k v (Some n) = (True, value' e, Some (n + 1)))) \<and>
   (\<forall>e. find (\<lambda>x. key x = k) (GetMandatory c) = None \<and>
        find (\<lambda>x. key x = k) (GetOptional c) = Some e \<longrightarrow>
      FindConstraint (Some c) k v mc = (True, value' e, mc)) \<and>
   (find (\<lambda>x. key x = k) (GetMandatory c) = None \<and>
    find (\<lambda>x. key x = k) (GetOptional c) = None \<longrightarrow>
      FindConstraint (Some c) k v mc = (False, v, mc))"
  by (simp add: FindConstraint_def FindFirst_find)

theorem FindConstraint_mandatory_then_optional_witness:
  "find (\<lambda>x. key x = ''googDscp'')
     [\<lparr>key = ''IceRestart'', value' = ''false''\<rparr>, \<lparr>key = ''googDscp'', value' = ''true''\<rparr>,
      \<lparr>key = ''googDscp'', value' = ''false''\<rparr>]
     = Some \<lparr>key = ''googDscp'', value' = ''true''\<rparr> \<and>
   FindConstraint
     (Some \<lparr>GetMandatory =
              [\<lparr>key = ''IceRestart'', value' = ''false''\<rparr>, \<lparr>key = ''googDscp'', value' = ''true''\<rparr>,
               \<lparr>key = ''googDscp'', value' = ''false''\<rparr>],
            GetOptional = [\<lparr>key = ''googDscp'', value' = ''maybe''\<rparr>]\<rparr>)
     ''googDscp'' ''old'' (Some 4) = (True, ''true'', Some 5) \<and>
   find (\<lambda>x. key x = ''googIPv6'') [\<lparr>key = ''IceRestart'', value' = ''false''\<rparr>] = None \<and>
   find (\<lambda>x. key x = ''googIPv6'')
     [\<lparr>key = ''googIPv6'', value' = ''1''\<rparr>, \<lparr>key = ''googIPv6'', value' = ''2''\<rparr>]
     = Some \<lparr>key = ''googIPv6'', value' = ''1''\<rparr> \<and>
   FindConstraint
     (Some \<lparr>GetMandatory = [\<lparr>key = ''IceRestart'', value' = ''false''\<rparr>],
            GetOptional = [\<lparr>key = ''googIPv6'', value' = ''1''\<rparr>, \<lparr>key = ''googIPv6'', value' = ''2''\<rparr>]\<rparr>)
     ''googIPv6'' ''old'' (Some 4) = (True, ''1'', Some 4) \<and>
   find (\<lambda>x. key x = ''googIPv6'') [] = None \<and>
   FindConstraint
     (Some \<lparr>GetMandatory = [\<lparr>key = ''IceRestart'', value' = ''false''\<rparr>], GetOptional = []\<rparr>)
     ''googIPv6'' ''old'' (Some 4) = (False, ''old'', Some 4)"
proof -
  let ?m1 = "[\<lparr>key = ''IceRestart'', value' = ''false''\<rparr>, \<lparr>key = ''googDscp'', value' = ''true''\<rparr>,
              \<lparr>key = ''googDscp'', value' = ''false''\<rparr>]"
  let ?c1 = "\<lparr>GetMandatory = ?m1, GetOptional = [\<lparr>key = ''googDscp'', value' = ''maybe''\<rparr>]\<rparr>"
  let ?m2 = "[\<lparr>key = ''IceRestart'', value' = ''false''\<rparr>]"
  let ?o2 = "[\<lparr>key = ''googIPv6'', value' = ''1''\<rparr>, \<lparr>key = ''googIPv6'', value' = ''2''\<rparr>]"
  let ?c2 = "\<lparr>GetMandatory = ?m2, GetOptional = ?o2\<rparr>"
  let ?c3 = "\<lparr>GetMandatory = ?m2, GetOptional = []\<rparr>"
  have f1: "find (\<lambda>x. key x = ''googDscp'') ?m1 = Some \<lparr>key = ''googDscp'', value' = ''true''\<rparr>"
    by simp
  have f2: "find (\<lambda>x. key x = ''googIPv6'') ?m2 = None"
    by simp
  have f3: "find (\<lambda>x. key x = ''googIPv6'') ?o2 = Some \<lparr>key = ''googIPv6'', value' = ''1''\<rparr>"
    by simp
  have f4: "find (\<lambda>x. key x = ''googIPv6'') ([] :: Constraints) = None"
    by simp
  show ?thesis
    using f1 f2 f3 f4
      FindConstraint_mandatory_then_optional [of "''googDscp''" "''old''" "Some 4" ?c1]
      FindConstraint_mandatory_then_optional [of "''googIPv6''" "''old''" "Some 4" ?c2]
      FindConstraint_mandatory_then_optional [of "''googIPv6''" "''old''" "Some 4" ?c3]
    by simp
qed

section \<open>Properties of the task queue\<close>

lemma trace_log [simp]: "trace (log e w) = trace w @ [e]"
  by (simp add: log_def)

lemma queues_log [simp]: "queues (log e w) = queues w"
  by (simp add: log_def)

lemma trace_set_queue [simp]: "trace (set_queue q Q w) = trace w"
  by (simp add: set_queue_def)

lemma queues_set_queue [simp]: "queues (set_queue q Q w) = (queues w)(q := Q)"
  by (simp add: set_queue_def)

lemma destroy_counting_task:
  "destroy (counting_task i) w = log (Destroyed (counting_task i)) (log (Called (2 * i + 1)) w)"
  by (simp add: counting_task_def)

lemma Run_counting_task: "Run (counting_task i) w = (log (Called (2 * i)) w, True)"
  by (simp add: counting_task_def)

lemma counting_task_inj [simp]: "(counting_task i = counting_task j) = (i = j)"
  by (simp add: counting_task_def)

lemma odd_ne_even [simp]: "(2 * (j::nat) = Suc (2 * i)) = False" "(Suc (2 * i) = 2 * (j::nat)) = False"
  by presburger+

lemma calls_of_log_Called:
  "calls_of j (log (Called n) w) =
     calls_of j w @ (if n = 2 * j \<or> n = 2 * j + 1 then [Called n] else [])"
  by (simp add: calls_of_def)

lemma calls_of_log_other [simp]:
  "calls_of j (log (Started q t) w) = calls_of j w"
  "calls_of j (log (Returned q t b) w) = calls_of j w"
  "calls_of j (log (Destroyed t) w) = calls_of j w"
  by (simp_all add: calls_of_def)

lemma calls_of_set_queue [simp]: "calls_of j (set_queue q Q w) = calls_of j w"
  by (simp add: calls_of_def)

lemma counts_log [simp]:
  "tasks_executed (log (Called n) w) = tasks_executed w + (if even n then 1 else 0)"
  "tasks_cleaned_up (log (Called n) w) = tasks_cleaned_up w + (if odd n then 1 else 0)"
  "tasks_executed (log (Started q t) w) = tasks_executed w"
  "tasks_executed (log (Returned q t b) w) = tasks_executed w"
  "tasks_executed (log (Destroyed t) w) = tasks_executed w"
  "tasks_cleaned_up (log (Started q t) w) = tasks_cleaned_up w"
  "tasks_cleaned_up (log (Returned q t b) w) = tasks_cleaned_up w"
  "tasks_cleaned_up (log (Destroyed t) w) = tasks_cleaned_up w"
  by (simp_all add: tasks_executed_def tasks_cleaned_up_def)

lemma counts_set_queue [simp]:
  "tasks_executed (set_queue q Q w) = tasks_executed w"
  "tasks_cleaned_up (set_queue q Q w) = tasks_cleaned_up w"
  by (simp_all add: tasks_executed_def tasks_cleaned_up_def)

lemma inv_create: "PostALot_inv q cap 0 (TaskQueue_create q cap no_queues)"
  by (simp add: PostALot_inv_def TaskQueue_create_def no_queues_def tasks_executed_def
      tasks_cleaned_up_def calls_of_def set_queue_def)

lemma inv_post:
  assumes "PostALot_inv q cap i w"
  shows "PostALot_inv q cap (Suc i) (PostTask q (counting_task i) w)"
proof -
  from assms obtain js where
    Q: "queues w q = Some \<lparr>pending = map counting_task js, capacity = cap\<rparr>"
    and d: "distinct js" and lt: "\<forall>j \<in> set js. j < i"
    and total: "tasks_cleaned_up w + length js = i"
    and le: "tasks_executed w \<le> tasks_cleaned_up w"
    and calls: "\<forall>j. (j \<in> set js \<or> i \<le> j \<longrightarrow> calls_of j w = []) \<and>
                    (j \<notin> set js \<and> j < i \<longrightarrow> outcome_ok j w)"
    unfolding PostALot_inv_def by blast
  from lt have i_new: "i \<notin> set js" by auto
  show ?thesis
  proof (cases "length js < cap")
    case True
    with Q have eq: "PostTask q (counting_task i) w =
        set_queue q (Some \<lparr>pending = map counting_task (js @ [i]), capacity = cap\<rparr>) w"
      by simp
    show ?thesis
      unfolding PostALot_inv_def eq
      apply (rule exI [of _ "js @ [i]"])
      using d lt total le calls i_new
      by (auto simp: outcome_ok_def less_Suc_eq)
  next
    case False
    with Q have eq: "PostTask q (counting_task i) w =
        log (Destroyed (counting_task i)) (log (Called (2 * i + 1)) w)"
      by (simp add: destroy_counting_task)
    show ?thesis
      unfolding PostALot_inv_def eq
      apply (rule exI [of _ js])
      using Q d lt total le calls i_new
      by (auto simp: outcome_ok_def less_Suc_eq calls_of_log_Called)
  qed
qed


lemma inv_step:
  assumes "PostALot_inv q cap i w"
  shows "PostALot_inv q cap i (worker_step q w)"
proof -
  from assms obtain js where
    Q: "queues w q = Some \<lparr>pending = map counting_task js, capacity = cap\<rparr>"
    and d: "distinct js" and lt: "\<forall>j \<in> set js. j < i"
    and total: "tasks_cleaned_up w + length js = i"
    and le: "tasks_executed w \<le> tasks_cleaned_up w"
    and calls: "\<forall>j. (j \<in> set js \<or> i \<le> j \<longrightarrow> calls_of j w = []) \<and>
                    (j \<notin> set js \<and> j < i \<longrightarrow> outcome_ok j w)"
    unfolding PostALot_inv_def by blast
  show ?thesis
  proof (cases js)
    case Nil
    with Q have "worker_step q w = w"
      by (simp add: worker_step_def)
    with assms show ?thesis by simp
  next
    case (Cons j rest)
    let ?t = "counting_task j"
    from Q Cons have eq: "worker_step q w =
        log (Destroyed ?t) (log (Called (2 * j + 1)) (log (Returned q ?t True)
          (log (Called (2 * j)) (log (Started q ?t)
            (set_queue q (Some \<lparr>pending = map counting_task rest, capacity = cap\<rparr>) w)))))"
      by (simp add: worker_step_def Run_counting_task destroy_counting_task)
    from calls Cons have j0: "calls_of j w = []"
      by simp
    show ?thesis
      unfolding PostALot_inv_def eq
      apply (rule exI [of _ rest])
      using d lt total le calls j0 Cons
      by (auto simp: outcome_ok_def calls_of_log_Called)
  qed
qed

lemma inv_steps: "PostALot_inv q cap i w \<Longrightarrow> PostALot_inv q cap i ((worker_step q ^^ k) w)"
  by (induction k) (simp_all add: inv_step)

lemma inv_post_a_lot:
  "PostALot_inv q cap i w \<Longrightarrow> PostALot_inv q cap (i + length ks) (post_a_lot q i ks w)"
proof (induction ks arbitrary: i w)
  case Nil
  then show ?case by simp
next
  case (Cons k ks)
  from Cons.prems have "PostALot_inv q cap (Suc i) ((worker_step q ^^ k) (PostTask q (counting_task i) w))"
    by (intro inv_steps inv_post)
  from Cons.IH [OF this] show ?case
    by simp
qed

lemma fold_destroy_trace:
  "trace (fold destroy (map counting_task js) w) =
     trace w @ concat (map (\<lambda>j. [Called (Suc (2 * j)), Destroyed (counting_task j)]) js)"
  by (induction js arbitrary: w) (simp_all add: destroy_counting_task)

lemma filter_cleanup_concat:
  "filter is_cleaned_up (concat (map (\<lambda>j. [Called (Suc (2 * j)), Destroyed (counting_task j)]) js))
     = map (\<lambda>j. Called (Suc (2 * j))) js"
  by (induction js) simp_all

lemma filter_executed_concat:
  "filter is_executed (concat (map (\<lambda>j. [Called (Suc (2 * j)), Destroyed (counting_task j)]) js)) = []"
  by (induction js) simp_all

lemma filter_calls_concat:
  "distinct js \<Longrightarrow>
   filter (\<lambda>e. e = Called (2 * i) \<or> e = Called (Suc (2 * i)))
     (concat (map (\<lambda>j. [Called (Suc (2 * j)), Destroyed (counting_task j)]) js))
     = (if i \<in> set js then [Called (Suc (2 * i))] else [])"
  by (induction js) auto

lemma inv_destruct:
  assumes "PostALot_inv q cap n w"
  shows "tasks_cleaned_up (TaskQueue_destruct q w) = n"
    and "tasks_executed (TaskQueue_destruct q w) \<le> tasks_cleaned_up (TaskQueue_destruct q w)"
    and "j < n \<Longrightarrow> outcome_ok j (TaskQueue_destruct q w)"
    and "queues (TaskQueue_destruct q w) q = None"
proof -
  from assms obtain js where
    Q: "queues w q = Some \<lparr>pending = map counting_task js, capacity = cap\<rparr>"
    and d: "distinct js" and lt: "\<forall>j \<in> set js. j < n"
    and total: "tasks_cleaned_up w + length js = n"
    and le: "tasks_executed w \<le> tasks_cleaned_up w"
    and calls: "\<forall>j. (j \<in> set js \<or> n \<le> j \<longrightarrow> calls_of j w = []) \<and>
                    (j \<notin> set js \<and> j < n \<longrightarrow> outcome_ok j w)"
    unfolding PostALot_inv_def by blast
  let ?w = "TaskQueue_destruct q w"
  from Q have tr: "trace ?w =
      trace w @ concat (map (\<lambda>j. [Called (Suc (2 * j)), Destroyed (counting_task j)]) js)"
    by (simp add: TaskQueue_destruct_def fold_destroy_trace)
  from total show c: "tasks_cleaned_up ?w = n"
    by (simp add: tasks_cleaned_up_def tr filter_cleanup_concat)
  from le have "tasks_executed ?w \<le> tasks_cleaned_up w"
    by (simp add: tasks_executed_def tr filter_executed_concat)
  with c total show "tasks_executed ?w \<le> tasks_cleaned_up ?w"
    by simp
  show "j < n \<Longrightarrow> outcome_ok j ?w"
    using calls d
    by (auto simp: outcome_ok_def calls_of_def tr filter_calls_concat)
  have "queues (fold destroy (map counting_task js) w') = queues w'" for w'
    by (induction js arbitrary: w') (simp_all add: destroy_counting_task)
  with Q show "queues ?w q = None"
    by (simp add: TaskQueue_destruct_def)
qed

text \<open>
  C3, as stated, fails: a paired closure task that the worker runs normally has its
  cleanup callable called as well. On a queue of capacity 1 the task with run effect
  0 and cleanup effect 1 is posted and the worker takes one turn; effect 1 happens,
  after \<^verbatim>\<open>Run\<close> has returned true.
\<close>

theorem paired_closure_cleanup_is_invoked_counterexample:
  "trace (worker_step 0 (PostTask 0 (ClosureTaskWithCleanup [Invoke 0] [Invoke 1])
            (TaskQueue_create 0 1 no_queues)))
     = [Started 0 (ClosureTaskWithCleanup [Invoke 0] [Invoke 1]), Called 0,
        Returned 0 (ClosureTaskWithCleanup [Invoke 0] [Invoke 1]) True, Called 1,
        Destroyed (ClosureTaskWithCleanup [Invoke 0] [Invoke 1])] \<and>
   Called 1 \<in> set (trace (worker_step 0 (PostTask 0 (ClosureTaskWithCleanup [Invoke 0] [Invoke 1])
            (TaskQueue_create 0 1 no_queues))))"
  by (simp add: worker_step_def TaskQueue_create_def no_queues_def)

text \<open>
  C3, amended. For every paired closure task that the worker runs: \<^verbatim>\<open>Run\<close> calls
  the run callable, does not call the cleanup callable, and returns true; the queue
  then destroys the task, and that destruction calls the cleanup callable, once,
  after the run callable. For callables with one effect each the trace of the turn
  is: started, run effect, returned true, cleanup effect, destroyed.
\<close>

theorem paired_closure_runs_then_cleans_up:
  assumes "queues w q = Some Q"
    and "pending Q = ClosureTaskWithCleanup f c # rest"
  shows "Run (ClosureTaskWithCleanup f c) w' = (exec_actions f w', True) \<and>
         worker_step q w =
           log (Destroyed (ClosureTaskWithCleanup f c))
             (exec_actions c
               (log (Returned q (ClosureTaskWithCleanup f c) True)
                 (exec_actions f
                   (log (Started q (ClosureTaskWithCleanup f c))
                     (set_queue q (Some (Q\<lparr>pending := rest\<rparr>)) w))))) \<and>
         (\<forall>a b. f = [Invoke a] \<and> c = [Invoke b] \<longrightarrow>
            trace (worker_step q w) =
              trace w @ [Started q (ClosureTaskWithCleanup f c), Called a,
                         Returned q (ClosureTaskWithCleanup f c) True, Called b,
                         Destroyed (ClosureTaskWithCleanup f c)])"
  using assms by (simp add: worker_step_def)

theorem paired_closure_runs_then_cleans_up_witness:
  "queues (PostTask 0 (ClosureTaskWithCleanup [Invoke 0] [Invoke 1]) (TaskQueue_create 0 1 no_queues)) 0
     = Some \<lparr>pending = [ClosureTaskWithCleanup [Invoke 0] [Invoke 1]], capacity = 1\<rparr> \<and>
   pending \<lparr>pending = [ClosureTaskWithCleanup [Invoke 0] [Invoke 1]], capacity = 1\<rparr>
     = ClosureTaskWithCleanup [Invoke 0] [Invoke 1] # [] \<and>
   trace (worker_step 0 (PostTask 0 (ClosureTaskWithCleanup [Invoke 0] [Invoke 1])
            (TaskQueue_create 0 1 no_queues)))
     = trace (PostTask 0 (ClosureTaskWithCleanup [Invoke 0] [Invoke 1]) (TaskQueue_create 0 1 no_queues)) @
       [Started 0 (ClosureTaskWithCleanup [Invoke 0] [Invoke 1]), Called 0,
        Returned 0 (ClosureTaskWithCleanup [Invoke 0] [Invoke 1]) True, Called 1,
        Destroyed (ClosureTaskWithCleanup [Invoke 0] [Invoke 1])]"
proof -
  let ?t = "ClosureTaskWithCleanup [Invoke 0] [Invoke 1]"
  let ?w = "PostTask 0 ?t (TaskQueue_create 0 1 no_queues)"
  have q: "queues ?w 0 = Some \<lparr>pending = [?t], capacity = 1\<rparr>"
    by (simp add: TaskQueue_create_def no_queues_def)
  have p: "pending \<lparr>pending = [?t], capacity = 1\<rparr> = ?t # []"
    by simp
  from paired_closure_runs_then_cleans_up [OF q p, of ?w] q p show ?thesis
    by simp
qed

text \<open>
  C4. When more tasks are posted than the pending channel has room for, the excess
  task is dropped without any report to the caller: \<open>PostTask\<close> on a full queue
  does not enqueue the task but destroys it, and the destruction calls its cleanup
  callable. For the test's loop of \<open>length ks\<close> paired tasks, with any capacity and
  any number of worker turns between the posts, once the queue has been destroyed:
  the number of cleanup calls is the number of tasks posted; it is at least the
  number of run calls; and every task has had exactly one of two outcomes, its run
  callable called and then its cleanup callable when the queue was done with it, or
  its cleanup callable alone because it was dropped or discarded.
\<close>

theorem PostALot_every_task_cleaned_up:
  "tasks_cleaned_up (PostALot q cap ks) = length ks \<and>
   tasks_executed (PostALot q cap ks) \<le> tasks_cleaned_up (PostALot q cap ks) \<and>
   (\<forall>i < length ks. outcome_ok i (PostALot q cap ks)) \<and>
   (\<forall>w Q f c. queues w q = Some Q \<and> capacity Q \<le> length (pending Q) \<longrightarrow>
      PostTask q (ClosureTaskWithCleanup f c) w
        = log (Destroyed (ClosureTaskWithCleanup f c)) (exec_actions c w))"
proof -
  have "PostALot_inv q cap (0 + length ks) (post_a_lot q 0 ks (TaskQueue_create q cap no_queues))"
    by (rule inv_post_a_lot) (rule inv_create)
  then have inv: "PostALot_inv q cap (length ks) (post_a_lot q 0 ks (TaskQueue_create q cap no_queues))"
    by simp
  note fin = inv_destruct [OF inv, folded PostALot_def]
  have full: "PostTask q (ClosureTaskWithCleanup f c) w
        = log (Destroyed (ClosureTaskWithCleanup f c)) (exec_actions c w)"
    if "queues w q = Some Q" "capacity Q \<le> length (pending Q)" for w Q f c
    using that by simp
  from fin(1) fin(2) fin(3) full show ?thesis
    by blast
qed

theorem PostALot_every_task_cleaned_up_witness:
  "(2::nat) < length [0, 0, 1, 0 :: nat] \<and>
   calls_of 0 (PostALot 0 2 [0, 0, 1, 0]) = [Called 0, Called 1] \<and>
   calls_of 2 (PostALot 0 2 [0, 0, 1, 0]) = [Called 5] \<and>
   outcome_ok 2 (PostALot 0 2 [0, 0, 1, 0]) \<and>
   tasks_cleaned_up (PostALot 0 2 [0, 0, 1, 0]) = 4 \<and>
   tasks_executed (PostALot 0 2 [0, 0, 1, 0]) = 1 \<and>
   queues (TaskQueue_create 0 0 no_queues) 0 = Some \<lparr>pending = [], capacity = 0\<rparr> \<and>
   capacity \<lparr>pending = [], capacity = 0\<rparr> \<le> length (pending \<lparr>pending = [], capacity = 0\<rparr>) \<and>
   trace (PostTask 0 (ClosureTaskWithCleanup [Invoke 8] [Invoke 9]) (TaskQueue_create 0 0 no_queues))
     = [Called 9, Destroyed (ClosureTaskWithCleanup [Invoke 8] [Invoke 9])]"
proof -
  have e0: "calls_of 0 (PostALot 0 2 [0, 0, 1, 0]) = [Called 0, Called 1]"
    by code_simp
  have e2: "calls_of 2 (PostALot 0 2 [0, 0, 1, 0]) = [Called 5]"
    by code_simp
  have ex: "tasks_executed (PostALot 0 2 [0, 0, 1, 0]) = 1"
    by code_simp
  have q0: "queues (TaskQueue_create 0 0 no_queues) 0 = Some \<lparr>pending = [], capacity = 0\<rparr>"
    by (simp add: TaskQueue_create_def)
  have tr: "trace (log (Destroyed (ClosureTaskWithCleanup [Invoke 8] [Invoke 9]))
              (exec_actions [Invoke 9] (TaskQueue_create 0 0 no_queues)))
            = [Called 9, Destroyed (ClosureTaskWithCleanup [Invoke 8] [Invoke 9])]"
    by (simp add: TaskQueue_create_def no_queues_def)
  from PostALot_every_task_cleaned_up [of 0 2 "[0, 0, 1, 0]"]
  have a: "tasks_cleaned_up (PostALot 0 2 [0, 0, 1, 0]) = length [0, 0, 1, 0 :: nat]"
    and b: "\<forall>i < length [0, 0, 1, 0 :: nat]. outcome_ok i (PostALot 0 2 [0, 0, 1, 0])"
    and c: "\<forall>w Q f c. queues w 0 = Some Q \<and> capacity Q \<le> length (pending Q) \<longrightarrow>
      PostTask 0 (ClosureTaskWithCleanup f c) w
        = log (Destroyed (ClosureTaskWithCleanup f c)) (exec_actions c w)"
    by blast+
  from b have ok: "outcome_ok 2 (PostALot 0 2 [0, 0, 1, 0])"
    by simp
  from c q0 have "PostTask 0 (ClosureTaskWithCleanup [Invoke 8] [Invoke 9]) (TaskQueue_create 0 0 no_queues)
      = log (Destroyed (ClosureTaskWithCleanup [Invoke 8] [Invoke 9]))
          (exec_actions [Invoke 9] (TaskQueue_create 0 0 no_queues))"
    by simp
  with tr have dropped: "trace (PostTask 0 (ClosureTaskWithCleanup [Invoke 8] [Invoke 9]) (TaskQueue_create 0 0 no_queues))
     = [Called 9, Destroyed (ClosureTaskWithCleanup [Invoke 8] [Invoke 9])]"
    by simp
  from a e0 e2 ex ok q0 dropped show ?thesis
    by simp
qed

section \<open>Properties of delayed tasks\<close>

lemma set_insert_entry [simp]: "set (insert_entry e es) = insert e (set es)"
  by (induction es) auto

lemma filter_insert_entry_length:
  "length (filter P (insert_entry e es)) = (if P e then 1 else 0) + length (filter P es)"
  by (induction es) auto

lemma filter_split_length:
  "length (filter P (filter D xs)) + length (filter P (filter (\<lambda>x. \<not> D x) xs)) = length (filter P xs)"
  by (induction xs) auto

lemma posted_append: "posted ps e \<Longrightarrow> posted (ps @ [p]) e"
  by (auto simp: posted_def nth_append)

lemma posts_snoc:
  "posts (ops @ [op]) = posts ops @ (case op of PostDelayed now t d \<Rightarrow> [(now, t, d)] | Wake now \<Rightarrow> [])"
  by (induction ops rule: posts.induct) (auto split: delayed_op.splits)

lemma run_delayed_snoc: "run_delayed (ops @ [op]) = apply_op op (run_delayed ops)"
  by (simp add: run_delayed_def)

lemma delayed_inv_new: "delayed_inv [] new_delayed_queue"
  by (simp add: delayed_inv_def new_delayed_queue_def runs_of_def)

lemma delayed_inv_post:
  assumes "delayed_inv ps Q"
  shows "delayed_inv (ps @ [(now, t, d)]) (PostDelayedTask now t d Q)"
proof -
  let ?e = "\<lparr>fire_time = now + d, sequence = length ps, entry_task = t\<rparr>"
  from assms have n: "next_sequence (scheduler Q) = length ps"
    and es: "\<forall>e \<in> set (entries (scheduler Q)). posted ps e"
    and rs: "\<forall>r \<in> set (runs Q). posted ps (snd r) \<and> fire_time (snd r) \<le> fst r"
    and cnt: "\<forall>k. length (filter (\<lambda>e. sequence e = k) (entries (scheduler Q))) + length (runs_of k Q)
            = (if k < length ps then 1 else 0)"
    unfolding delayed_inv_def by blast+
  have sch: "scheduler (PostDelayedTask now t d Q) =
      \<lparr>entries = insert_entry ?e (entries (scheduler Q)), next_sequence = Suc (length ps)\<rparr>"
    by (simp add: PostDelayedTask_def Schedule_def n)
  have rn: "runs (PostDelayedTask now t d Q) = runs Q"
    by (simp add: PostDelayedTask_def)
  have new: "posted (ps @ [(now, t, d)]) ?e"
    by (simp add: posted_def)
  show ?thesis
    unfolding delayed_inv_def
  proof (intro conjI allI ballI)
    show "next_sequence (scheduler (PostDelayedTask now t d Q)) = length (ps @ [(now, t, d)])"
      by (simp add: sch)
    show "posted (ps @ [(now, t, d)]) e" if "e \<in> set (entries (scheduler (PostDelayedTask now t d Q)))" for e
      using that es new by (auto simp: sch posted_append)
    show "posted (ps @ [(now, t, d)]) (snd r)" if "r \<in> set (runs (PostDelayedTask now t d Q))" for r
      using that rs by (auto simp: rn posted_append)
    show "fire_time (snd r) \<le> fst r" if "r \<in> set (runs (PostDelayedTask now t d Q))" for r
      using that rs by (auto simp: rn)
    show "length (filter (\<lambda>e. sequence e = k) (entries (scheduler (PostDelayedTask now t d Q))))
            + length (runs_of k (PostDelayedTask now t d Q))
          = (if k < length (ps @ [(now, t, d)]) then 1 else 0)" for k
      using cnt [rule_format, of k]
      by (auto simp: sch runs_of_def rn filter_insert_entry_length)
  qed
qed

lemma delayed_inv_wake:
  assumes "delayed_inv ps Q"
  shows "delayed_inv ps (worker_wake now Q)"
proof -
  let ?es = "entries (scheduler Q)"
  from assms have n: "next_sequence (scheduler Q) = length ps"
    and es: "\<forall>e \<in> set ?es. posted ps e"
    and rs: "\<forall>r \<in> set (runs Q). posted ps (snd r) \<and> fire_time (snd r) \<le> fst r"
    and cnt: "\<forall>k. length (filter (\<lambda>e. sequence e = k) ?es) + length (runs_of k Q)
            = (if k < length ps then 1 else 0)"
    unfolding delayed_inv_def by blast+
  have sch: "entries (scheduler (worker_wake now Q)) = filter (\<lambda>e. \<not> fire_time e \<le> now) ?es"
    and nx: "next_sequence (scheduler (worker_wake now Q)) = next_sequence (scheduler Q)"
    and rn: "runs (worker_wake now Q) = runs Q @ map (\<lambda>e. (now, e)) (filter (\<lambda>e. fire_time e \<le> now) ?es)"
    by (simp_all add: worker_wake_def NextDue_def)
  have rk: "length (runs_of k (worker_wake now Q)) =
      length (runs_of k Q) + length (filter (\<lambda>e. sequence e = k) (filter (\<lambda>e. fire_time e \<le> now) ?es))" for k
    by (simp add: runs_of_def rn filter_map comp_def)
  show ?thesis
    unfolding delayed_inv_def
  proof (intro conjI allI ballI)
    show "next_sequence (scheduler (worker_wake now Q)) = length ps"
      by (simp add: nx n)
    show "posted ps e" if "e \<in> set (entries (scheduler (worker_wake now Q)))" for e
      using that es by (auto simp: sch)
    show "posted ps (snd r)" if "r \<in> set (runs (worker_wake now Q))" for r
      using that rs es by (auto simp: rn)
    show "fire_time (snd r) \<le> fst r" if "r \<in> set (runs (worker_wake now Q))" for r
      using that rs by (auto simp: rn)
    show "length (filter (\<lambda>e. sequence e = k) (entries (scheduler (worker_wake now Q))))
            + length (runs_of k (worker_wake now Q)) = (if k < length ps then 1 else 0)" for k
      using cnt [rule_format, of k]
        filter_split_length [of "\<lambda>e. sequence e = k" "\<lambda>e. fire_time e \<le> now" ?es]
      by (simp add: sch rk)
  qed
qed

lemma delayed_inv_run: "delayed_inv (posts ops) (run_delayed ops)"
proof (induction ops rule: rev_induct)
  case Nil
  show ?case by (simp add: run_delayed_def delayed_inv_new)
next
  case (snoc op ops)
  show ?case
  proof (cases op)
    case (PostDelayed now t d)
    with snoc show ?thesis
      by (simp add: posts_snoc run_delayed_snoc delayed_inv_post)
  next
    case (Wake now)
    with snoc show ?thesis
      by (simp add: posts_snoc run_delayed_snoc delayed_inv_wake)
  qed
qed

lemma delayed_inv_all_due:
  assumes inv: "delayed_inv ps Q"
    and due: "\<forall>p \<in> set ps. fst p + snd (snd p) \<le> W"
  shows "entries (scheduler (worker_wake W Q)) = []"
    and "k < length ps \<Longrightarrow> length (runs_of k (worker_wake W Q)) = 1"
proof -
  let ?es = "entries (scheduler Q)"
  from inv have es: "\<forall>e \<in> set ?es. posted ps e"
    unfolding delayed_inv_def by blast
  have "fire_time e \<le> W" if "e \<in> set ?es" for e
  proof -
    from es that have p: "posted ps e" by blast
    then have "ps ! sequence e \<in> set ps"
      by (simp add: posted_def)
    with due have "fst (ps ! sequence e) + snd (snd (ps ! sequence e)) \<le> W"
      by blast
    with p show ?thesis
      by (auto simp: posted_def split: prod.splits)
  qed
  then have none: "filter (\<lambda>e. \<not> fire_time e \<le> W) ?es = []"
    by (simp add: filter_empty_conv)
  then show e: "entries (scheduler (worker_wake W Q)) = []"
    by (simp add: worker_wake_def NextDue_def)
  from delayed_inv_wake [OF inv, of W]
  have "\<forall>k. length (filter (\<lambda>e. sequence e = k) (entries (scheduler (worker_wake W Q))))
            + length (runs_of k (worker_wake W Q)) = (if k < length ps then 1 else 0)"
    unfolding delayed_inv_def by blast
  then show "k < length ps \<Longrightarrow> length (runs_of k (worker_wake W Q)) = 1"
    by (simp add: e)
qed

lemma entry_before_trans: "entry_before a b \<Longrightarrow> entry_before b c \<Longrightarrow> entry_before a c"
  by (auto simp: entry_before_def)

lemma entry_before_total: "sequence a \<noteq> sequence b \<Longrightarrow> entry_before a b \<or> entry_before b a"
  by (auto simp: entry_before_def)

lemma sorted_insert_entry:
  "sorted_wrt entry_before es \<Longrightarrow> \<forall>x \<in> set es. sequence x \<noteq> sequence e \<Longrightarrow>
   sorted_wrt entry_before (insert_entry e es)"
proof (induction es)
  case Nil
  then show ?case by simp
next
  case (Cons x xs)
  then show ?case
    using entry_before_total [of x e]
    by (auto intro: entry_before_trans)
qed

text \<open>
  The scheduler keeps its entries in ascending order of fire time and sequence
  number, and what \<open>NextDue\<close> returns is in that order.
\<close>

lemma NextDue_ascending:
  "sorted_wrt entry_before (entries (scheduler (run_delayed ops))) \<and>
   sorted_wrt entry_before (fst (NextDue now (scheduler (run_delayed ops))))"
proof -
  have s: "sorted_wrt entry_before (entries (scheduler (run_delayed ops))) \<and>
        (\<forall>x \<in> set (entries (scheduler (run_delayed ops))).
           sequence x < next_sequence (scheduler (run_delayed ops)))"
  proof (induction ops rule: rev_induct)
    case Nil
    show ?case by (simp add: run_delayed_def new_delayed_queue_def)
  next
    case (snoc op ops)
    show ?case
    proof (cases op)
      case (PostDelayed t0 t d)
      with snoc show ?thesis
        by (auto simp: run_delayed_snoc PostDelayedTask_def Schedule_def less_Suc_eq
            intro!: sorted_insert_entry)
    next
      case (Wake t0)
      with snoc show ?thesis
        by (auto simp: run_delayed_snoc worker_wake_def NextDue_def sorted_wrt_filter)
    qed
  qed
  then show ?thesis
    by (simp add: NextDue_def sorted_wrt_filter)
qed

text \<open>
  C5. Whatever the history of posts and wakings of a queue: every start of a task
  is the start of a task that \<^verbatim>\<open>PostDelayedTask\<close> posted, and the clock reading at
  the start is at least the clock reading at the post plus the delay, so that the
  task never runs before the delay has elapsed; no posted task is started twice.
  When the worker then wakes at a clock reading at which every posted task is due,
  every posted task has been started exactly once. In particular, for a batch of
  \<open>N\<close> tasks posted with the delays \<open>0, 1, .., N - 1\<close>, task \<open>i\<close> at clock reading
  \<open>ts i\<close>, with any wakings of the worker in between: every task of the batch has
  run, once, and task \<open>i\<close> at a clock reading of at least \<open>ts i + i\<close>.
\<close>

theorem PostDelayedTask_never_early:
  "(\<forall>r \<in> set (runs (run_delayed ops)).
      sequence (snd r) < length (posts ops) \<and>
      (\<exists>now0 d. posts ops ! sequence (snd r) = (now0, entry_task (snd r), d) \<and> now0 + d \<le> fst r)) \<and>
   (\<forall>k. length (runs_of k (run_delayed ops)) \<le> 1) \<and>
   (\<forall>W. (\<forall>p \<in> set (posts ops). fst p + snd (snd p) \<le> W) \<longrightarrow>
        (\<forall>k < length (posts ops). length (runs_of k (run_delayed (ops @ [Wake W]))) = 1)) \<and>
   (\<forall>N T ts W. posts ops = map (\<lambda>i. (ts i, T i, i)) [0..<N] \<and> (\<forall>i < N. ts i + i \<le> W) \<longrightarrow>
        (\<forall>i < N. \<exists>\<tau> e. runs_of i (run_delayed (ops @ [Wake W])) = [(\<tau>, e)] \<and>
                         entry_task e = T i \<and> ts i + i \<le> \<tau>))"
proof -
  have never_early: "sequence (snd r) < length (posts ops') \<and>
      (\<exists>now0 d. posts ops' ! sequence (snd r) = (now0, entry_task (snd r), d) \<and> now0 + d \<le> fst r)"
    if "r \<in> set (runs (run_delayed ops'))" for r ops'
  proof -
    from delayed_inv_run [of ops'] that
    have p: "posted (posts ops') (snd r)" and f: "fire_time (snd r) \<le> fst r"
      unfolding delayed_inv_def by blast+
    obtain now0 t d where eq: "posts ops' ! sequence (snd r) = (now0, t, d)"
      by (cases "posts ops' ! sequence (snd r)") auto
    with p f show ?thesis
      by (auto simp: posted_def)
  qed
  have once: "length (runs_of k (run_delayed ops)) \<le> 1" for k
  proof -
    from delayed_inv_run [of ops]
    have "length (filter (\<lambda>e. sequence e = k) (entries (scheduler (run_delayed ops))))
            + length (runs_of k (run_delayed ops)) = (if k < length (posts ops) then 1 else 0)"
      unfolding delayed_inv_def by blast
    then show ?thesis
      by (simp split: if_splits)
  qed
  have complete: "length (runs_of k (run_delayed (ops @ [Wake W]))) = 1"
    if "\<forall>p \<in> set (posts ops). fst p + snd (snd p) \<le> W" "k < length (posts ops)" for W k
    using delayed_inv_all_due(2) [OF delayed_inv_run that]
    by (simp add: run_delayed_snoc)
  have batch: "\<exists>\<tau> e. runs_of i (run_delayed (ops @ [Wake W])) = [(\<tau>, e)] \<and>
                         entry_task e = T i \<and> ts i + i \<le> \<tau>"
    if ps: "posts ops = map (\<lambda>i. (ts i, T i, i)) [0..<N]" and due: "\<forall>i < N. ts i + i \<le> W"
      and i: "i < N" for N T ts W i
  proof -
    let ?Q = "run_delayed (ops @ [Wake W])"
    from ps due have "\<forall>p \<in> set (posts ops). fst p + snd (snd p) \<le> W"
      by auto
    moreover from ps i have ik: "i < length (posts ops)"
      by simp
    ultimately have "length (runs_of i ?Q) = 1"
      by (rule complete)
    then obtain r where r: "runs_of i ?Q = [r]"
      by (cases "runs_of i ?Q") auto
    then have "r \<in> set (runs_of i ?Q)"
      by simp
    then have mem: "r \<in> set (runs ?Q)" and sq: "sequence (snd r) = i"
      by (simp_all add: runs_of_def)
    from never_early [OF mem] sq obtain now0 d
      where "posts (ops @ [Wake W]) ! i = (now0, entry_task (snd r), d)" and "now0 + d \<le> fst r"
      by auto
    with ps i have "entry_task (snd r) = T i" and "ts i + i \<le> fst r"
      by (auto simp: posts_snoc)
    with r show ?thesis
      by (intro exI [of _ "fst r"] exI [of _ "snd r"]) simp
  qed
  from never_early [of _ ops] once complete batch show ?thesis
    by blast
qed

theorem PostDelayedTask_never_early_witness:
  "runs (run_delayed [PostDelayed 100 (ClosureTask [Invoke 0]) 0, PostDelayed 100 (ClosureTask [Invoke 1]) 1,
                      Wake 100, PostDelayed 101 (ClosureTask [Invoke 2]) 2, Wake 102])
     = [(100, \<lparr>fire_time = 100, sequence = 0, entry_task = ClosureTask [Invoke 0]\<rparr>),
        (102, \<lparr>fire_time = 101, sequence = 1, entry_task = ClosureTask [Invoke 1]\<rparr>)] \<and>
   posts [PostDelayed 100 (ClosureTask [Invoke 0]) 0, PostDelayed 100 (ClosureTask [Invoke 1]) 1,
          Wake 100, PostDelayed 101 (ClosureTask [Invoke 2]) 2, Wake 102]
     = [(100, ClosureTask [Invoke 0], 0), (100, ClosureTask [Invoke 1], 1), (101, ClosureTask [Invoke 2], 2)] \<and>
   (100::nat) + 1 \<le> 102 \<and>
   (100::nat) + 0 \<le> 103 \<and> (100::nat) + 1 \<le> 103 \<and> (101::nat) + 2 \<le> 103 \<and>
   (2::nat) < 3 \<and>
   length (runs_of 2 (run_delayed ([PostDelayed 100 (ClosureTask [Invoke 0]) 0,
       PostDelayed 100 (ClosureTask [Invoke 1]) 1, Wake 100,
       PostDelayed 101 (ClosureTask [Invoke 2]) 2, Wake 102] @ [Wake 103]))) = 1 \<and>
   runs_of 2 (run_delayed ([PostDelayed 100 (ClosureTask [Invoke 0]) 0,
       PostDelayed 100 (ClosureTask [Invoke 1]) 1, Wake 100,
       PostDelayed 101 (ClosureTask [Invoke 2]) 2, Wake 102] @ [Wake 103]))
     = [(103, \<lparr>fire_time = 103, sequence = 2, entry_task = ClosureTask [Invoke 2]\<rparr>)]"
proof -
  let ?ops = "[PostDelayed 100 (ClosureTask [Invoke 0]) 0, PostDelayed 100 (ClosureTask [Invoke 1]) 1,
               Wake 100, PostDelayed 101 (ClosureTask [Invoke 2]) 2, Wake 102]"
  let ?T = "\<lambda>i::nat. ClosureTask [Invoke i]"
  let ?ts = "\<lambda>i::nat. if i = 2 then 101 else (100::nat)"
  have rs: "runs (run_delayed ?ops)
     = [(100, \<lparr>fire_time = 100, sequence = 0, entry_task = ClosureTask [Invoke 0]\<rparr>),
        (102, \<lparr>fire_time = 101, sequence = 1, entry_task = ClosureTask [Invoke 1]\<rparr>)]"
    by code_simp
  have ps: "posts ?ops
     = [(100, ClosureTask [Invoke 0], 0), (100, ClosureTask [Invoke 1], 1), (101, ClosureTask [Invoke 2], 2)]"
    by simp
  have batch: "posts ?ops = map (\<lambda>i. (?ts i, ?T i, i)) [0..<3]"
    by (simp add: upt_rec)
  have due: "\<forall>i < 3. ?ts i + i \<le> 103"
    by simp
  have due': "\<forall>p \<in> set (posts ?ops). fst p + snd (snd p) \<le> 103"
    by simp
  have last: "runs_of 2 (run_delayed (?ops @ [Wake 103]))
     = [(103, \<lparr>fire_time = 103, sequence = 2, entry_task = ClosureTask [Invoke 2]\<rparr>)]"
    by code_simp
  note inst = PostDelayedTask_never_early [of ?ops]
  from inst have a: "\<forall>r \<in> set (runs (run_delayed ?ops)).
      sequence (snd r) < length (posts ?ops) \<and>
      (\<exists>now0 d. posts ?ops ! sequence (snd r) = (now0, entry_task (snd r), d) \<and> now0 + d \<le> fst r)"
    by (rule conjunct1)
  from inst [THEN conjunct2, THEN conjunct2, THEN conjunct1, THEN spec [of _ 103], THEN mp, OF due']
  have c: "\<forall>k < length (posts ?ops). length (runs_of k (run_delayed (?ops @ [Wake 103]))) = 1" .
  from inst [THEN conjunct2, THEN conjunct2, THEN conjunct2, THEN spec [of _ "3::nat"],
      THEN spec [of _ ?T], THEN spec [of _ ?ts], THEN spec [of _ 103], THEN mp, OF conjI [OF batch due]]
  have d0: "\<forall>i < 3. \<exists>\<tau> e. runs_of i (run_delayed (?ops @ [Wake 103])) = [(\<tau>, e)] \<and>
                         entry_task e = ?T i \<and> ?ts i + i \<le> \<tau>" .
  from d0 [THEN spec, of 2]
  have d: "\<exists>\<tau> e. runs_of 2 (run_delayed (?ops @ [Wake 103])) = [(\<tau>, e)] \<and>
                         entry_task e = ?T 2 \<and> ?ts 2 + 2 \<le> \<tau>"
    by simp
  from c ps have one: "length (runs_of 2 (run_delayed (?ops @ [Wake 103]))) = 1"
    by simp
  from a rs ps d one last show ?thesis
    by simp
qed

end
